theory Spec2Isabelle
  imports Main "HOL-Library.Word" "HOL-Library.Sublist"
begin

unbundle bit_operations_syntax

section \<open>Data model\<close>

text \<open>
  A Go \<open>string\<close> is a sequence of bytes: it is a \<open>string\<close> (a list of 8-bit
  characters) here, and \<open>length\<close> counts bytes as Go's \<open>len\<close> does. A \<open>rune\<close>
  (\<open>int32\<close>) and an \<open>int\<close> are integers; no offset of the lexer can leave the
  64-bit range before it leaves the input, so they are unbounded.
\<close>

type_synonym rune = int

text \<open>\<open>const EOF rune = 0x04\<close>\<close>

definition EOF :: rune where
  "EOF = 0x04"

text \<open>\<open>type ItemType uint16\<close>, with the two reserved kinds counted down from \<open>math.MaxUint16\<close>.\<close>

type_synonym ItemType = "16 word"

definition ItemEOF :: ItemType where
  "ItemEOF = 0xFFFF"

definition ItemError :: ItemType where
  "ItemError = 0xFFFF - 1"

record Item =
  Type :: ItemType
  Pos :: int
  Value :: string

text \<open>
  The run-time failures of the package: the explicit panic of \<open>New\<close>, and the panic of
  the Go run time on a slice expression out of range.
\<close>

datatype panic = NilStartState | SliceBounds

section \<open>The standard library the lexer calls\<close>

subsection \<open>\<open>unicode/utf8\<close>\<close>

definition RuneError :: rune where
  "RuneError = 0xFFFD"

definition RuneSelf :: rune where
  "RuneSelf = 0x80"

definition MaxRune :: rune where
  "MaxRune = 0x10FFFF"

definition surrogateMin :: rune where
  "surrogateMin = 0xD800"

definition surrogateMax :: rune where
  "surrogateMax = 0xDFFF"

text \<open>\<open>utf8.ValidRune\<close>: the code points that can be encoded, surrogate halves left out.\<close>

definition ValidRune :: "rune \<Rightarrow> bool" where
  "ValidRune r = ((0 \<le> r \<and> r < surrogateMin) \<or> (surrogateMax < r \<and> r \<le> MaxRune))"

definition byte :: "char \<Rightarrow> int" where
  "byte c = of_char c"

text \<open>
  The table \<open>first\<close> of the package: for a leading byte, the size of the sequence in the
  low three bits and the index of the accepted range of the second byte in the high four;
  \<open>0xF0\<close> marks ASCII and \<open>0xF1\<close> a byte that starts no sequence.
\<close>

definition first :: "int \<Rightarrow> int" where
  "first b =
     (if b < 0x80 then 0xF0
      else if b < 0xC2 then 0xF1
      else if b < 0xE0 then 0x02
      else if b = 0xE0 then 0x13
      else if b = 0xED then 0x23
      else if b < 0xF0 then 0x03
      else if b = 0xF0 then 0x34
      else if b < 0xF4 then 0x04
      else if b = 0xF4 then 0x44
      else 0xF1)"

text \<open>The table \<open>acceptRanges\<close>: lowest and highest second byte; unused entries are zero.\<close>

definition acceptRanges :: "int \<Rightarrow> int \<times> int" where
  "acceptRanges i =
     (if i = 0 then (0x80, 0xBF)
      else if i = 1 then (0xA0, 0xBF)
      else if i = 2 then (0x80, 0x9F)
      else if i = 3 then (0x90, 0xBF)
      else if i = 4 then (0x80, 0x8F)
      else (0, 0))"

text \<open>
  \<open>utf8.DecodeRuneInString\<close>: the first rune of \<open>s\<close> and its width in bytes;
  \<open>(RuneError, 0)\<close> on the empty string and \<open>(RuneError, 1)\<close> on an encoding that is
  not well formed.
\<close>

definition DecodeRuneInString :: "string \<Rightarrow> rune \<times> int" where
  "DecodeRuneInString s =
     (let n = int (length s) in
      if n < 1 then (RuneError, 0)
      else
        let s0 = byte (s ! 0); x = first s0 in
        if x \<ge> 0xF0 then (if x = 0xF1 then RuneError else s0, 1)
        else
          let sz = x AND 7; accept = acceptRanges (drop_bit 4 x) in
          if n < sz then (RuneError, 1)
          else
            let s1 = byte (s ! 1) in
            if s1 < fst accept \<or> snd accept < s1 then (RuneError, 1)
            else if sz \<le> 2 then
              (push_bit 6 (s0 AND 0x1F) OR (s1 AND 0x3F), 2)
            else
              let s2 = byte (s ! 2) in
              if s2 < 0x80 \<or> 0xBF < s2 then (RuneError, 1)
              else if sz \<le> 3 then
                (push_bit 12 (s0 AND 0x0F) OR push_bit 6 (s1 AND 0x3F) OR (s2 AND 0x3F), 3)
              else
                let s3 = byte (s ! 3) in
                if s3 < 0x80 \<or> 0xBF < s3 then (RuneError, 1)
                else
                  (push_bit 18 (s0 AND 0x07) OR push_bit 12 (s1 AND 0x3F)
                   OR push_bit 6 (s2 AND 0x3F) OR (s3 AND 0x3F), 4))"

subsection \<open>\<open>strings\<close> and \<open>unicode\<close>\<close>

text \<open>\<open>strings.HasPrefix\<close>: \<open>len(s) >= len(prefix) && s[:len(prefix)] == prefix\<close>.\<close>

definition HasPrefix :: "string \<Rightarrow> string \<Rightarrow> bool" where
  "HasPrefix s p = (length s \<ge> length p \<and> take (length p) s = p)"

text \<open>
  \<open>strings.IndexRune\<close>: the byte index of the first rune of \<open>s\<close> equal to \<open>r\<close>, or
  \<open>-1\<close>. The runes of \<open>s\<close> are those a \<open>range\<close> loop yields: each step decodes one
  rune, and a byte that starts no well-formed encoding yields \<open>RuneError\<close> and is one
  byte wide, so that looking for \<open>RuneError\<close> finds the first such byte as well.
\<close>

function IndexRune_from :: "int \<Rightarrow> string \<Rightarrow> rune \<Rightarrow> int" where
  "IndexRune_from i s r =
     (if s = [] then - 1
      else case DecodeRuneInString s of (c, w) \<Rightarrow>
        if c = r then i else IndexRune_from (i + w) (drop (nat w) s) r)"
  by pat_completeness auto
termination
proof (relation "measure (\<lambda>(i, s, r). length s)")
  show "wf (measure (\<lambda>(i, s, r). length s))" by simp
next
  fix i :: int and s :: string and r x :: rune and c w :: int
  assume ne: "s \<noteq> []" and d: "(c, w) = DecodeRuneInString s"
  have cases: "first b = 0xF0 \<or> first b = 0xF1 \<or> first b = 0x02 \<or> first b = 0x13
      \<or> first b = 0x23 \<or> first b = 0x03 \<or> first b = 0x34 \<or> first b = 0x04 \<or> first b = 0x44"
    for b by (simp add: first_def)
  from ne have n: "1 \<le> int (length s)" by (cases s) simp_all
  have "1 \<le> w"
    using cases [of "byte (s ! 0)"] d [symmetric] n
    by (elim disjE) (simp_all add: DecodeRuneInString_def Let_def split: if_splits)
  with ne show "((i + w, drop (nat w) s, r), (i, s, r)) \<in> measure (\<lambda>(i, s, r). length s)"
    by simp
qed

declare IndexRune_from.simps [simp del]

definition IndexRune :: "string \<Rightarrow> rune \<Rightarrow> int" where
  "IndexRune s r = IndexRune_from 0 s r"

text \<open>
  A \<open>unicode.RangeTable\<close> lists ranges of code points \<open>(lo, hi, stride)\<close>; \<open>unicode.Is\<close>
  tells whether a rune is in one of them.
\<close>

type_synonym RangeTable = "(rune \<times> rune \<times> rune) list"

definition Is :: "RangeTable \<Rightarrow> rune \<Rightarrow> bool" where
  "Is tab r = list_ex (\<lambda>(lo, hi, stride). lo \<le> r \<and> r \<le> hi \<and> (r - lo) mod stride = 0) tab"


section \<open>The lexer\<close>

text \<open>
  The fields of \<open>Lexer\<close> a state function works on. The queue \<open>items\<close> (a
  \<open>container/list\<close>) is the list of its elements, front first. The field \<open>last\<close> is
  \<open>last_rune\<close> here.
\<close>

record Cursor =
  input :: string
  start :: int
  pos :: int
  width :: int
  last_rune :: rune
  items :: "Item list"

text \<open>The slice expressions \<open>s[i:]\<close> and \<open>s[i:j]\<close>, which panic out of range.\<close>

definition slice_from :: "string \<Rightarrow> int \<Rightarrow> panic + string" where
  "slice_from s i =
     (if 0 \<le> i \<and> i \<le> int (length s) then Inr (drop (nat i) s) else Inl SliceBounds)"

definition slice :: "string \<Rightarrow> int \<Rightarrow> int \<Rightarrow> panic + string" where
  "slice s i j =
     (if 0 \<le> i \<and> i \<le> j \<and> j \<le> int (length s)
      then Inr (take (nat j - nat i) (drop (nat i) s)) else Inl SliceBounds)"

definition Advance :: "'a Cursor_scheme \<Rightarrow> panic + ((rune \<times> int) \<times> 'a Cursor_scheme)" where
  "Advance l =
     (if pos l \<ge> int (length (input l)) then Inr ((EOF, 0), l\<lparr>width := 0\<rparr>)
      else case slice_from (input l) (pos l) of
        Inl p \<Rightarrow> Inl p
      | Inr s \<Rightarrow>
          (case DecodeRuneInString s of (r, w) \<Rightarrow>
             if r = RuneError \<and> w = 1 then Inr ((r, w), l\<lparr>last_rune := r, width := w\<rparr>)
             else Inr ((r, w), l\<lparr>last_rune := r, width := w, pos := pos l + w\<rparr>)))"

definition Backup :: "'a Cursor_scheme \<Rightarrow> 'a Cursor_scheme" where
  "Backup l = l\<lparr>pos := pos l - width l\<rparr>"

text \<open>\<open>Peek\<close> returns what \<open>Advance\<close> returns; the deferred \<open>Backup\<close> runs before it returns.\<close>

definition Peek :: "'a Cursor_scheme \<Rightarrow> panic + ((rune \<times> int) \<times> 'a Cursor_scheme)" where
  "Peek l = (case Advance l of Inl p \<Rightarrow> Inl p | Inr (rw, l1) \<Rightarrow> Inr (rw, Backup l1))"

text \<open>\<open>Ignore\<close> throws the current lexeme away.\<close>

definition Ignore :: "'a Cursor_scheme \<Rightarrow> 'a Cursor_scheme" where
  "Ignore l = l\<lparr>start := pos l\<rparr>"

definition Accept :: "string \<Rightarrow> 'a Cursor_scheme \<Rightarrow> panic + (bool \<times> 'a Cursor_scheme)" where
  "Accept valid l =
     (case Advance l of
        Inl p \<Rightarrow> Inl p
      | Inr ((r, _), l1) \<Rightarrow>
          (let ok = (IndexRune valid r \<ge> 0) in Inr (ok, if \<not> ok then Backup l1 else l1)))"

definition AcceptRange :: "RangeTable \<Rightarrow> 'a Cursor_scheme \<Rightarrow> panic + (bool \<times> 'a Cursor_scheme)" where
  "AcceptRange tab l =
     (case Advance l of
        Inl p \<Rightarrow> Inl p
      | Inr ((r, _), l1) \<Rightarrow>
          (let ok = Is tab r in Inr (ok, if \<not> ok then Backup l1 else l1)))"

text \<open>
  The loops of \<open>AcceptRun\<close> and \<open>AcceptRunRange\<close>, with the count \<open>n\<close> so far. Nothing
  bounds them: \<open>Accept\<close> can succeed without moving \<open>pos\<close>. \<open>None\<close> is a loop that does
  not end.
\<close>

partial_function (option) AcceptRun_loop ::
  "string \<Rightarrow> int \<Rightarrow> 'a Cursor_scheme \<Rightarrow> (panic + (int \<times> 'a Cursor_scheme)) option" where
  "AcceptRun_loop valid n l =
     (case Accept valid l of
        Inl p \<Rightarrow> Some (Inl p)
      | Inr (ok, l1) \<Rightarrow> if ok then AcceptRun_loop valid (n + 1) l1 else Some (Inr (n, l1)))"

definition AcceptRun :: "string \<Rightarrow> 'a Cursor_scheme \<Rightarrow> (panic + (int \<times> 'a Cursor_scheme)) option" where
  "AcceptRun valid l = AcceptRun_loop valid 0 l"

partial_function (option) AcceptRunRange_loop ::
  "RangeTable \<Rightarrow> int \<Rightarrow> 'a Cursor_scheme \<Rightarrow> (panic + (int \<times> 'a Cursor_scheme)) option" where
  "AcceptRunRange_loop tab n l =
     (case AcceptRange tab l of
        Inl p \<Rightarrow> Some (Inl p)
      | Inr (ok, l1) \<Rightarrow> if ok then AcceptRunRange_loop tab (n + 1) l1 else Some (Inr (n, l1)))"

definition AcceptRunRange ::
  "RangeTable \<Rightarrow> 'a Cursor_scheme \<Rightarrow> (panic + (int \<times> 'a Cursor_scheme)) option" where
  "AcceptRunRange tab l = AcceptRunRange_loop tab 0 l"

definition AcceptString :: "string \<Rightarrow> 'a Cursor_scheme \<Rightarrow> panic + (bool \<times> 'a Cursor_scheme)" where
  "AcceptString s l =
     (case slice_from (input l) (pos l) of
        Inl p \<Rightarrow> Inl p
      | Inr rest \<Rightarrow>
          if HasPrefix rest s then Inr (True, l\<lparr>pos := pos l + int (length s)\<rparr>)
          else Inr (False, l))"

text \<open>The queue: \<open>PushBack\<close> appends, \<open>dequeue\<close> removes the front element if there is one.\<close>

definition enqueue :: "Item \<Rightarrow> 'a Cursor_scheme \<Rightarrow> 'a Cursor_scheme" where
  "enqueue i l = l\<lparr>items := items l @ [i]\<rparr>"

definition dequeue :: "'a Cursor_scheme \<Rightarrow> Item option \<times> 'a Cursor_scheme" where
  "dequeue l = (case items l of [] \<Rightarrow> (None, l) | head # rest \<Rightarrow> (Some head, l\<lparr>items := rest\<rparr>))"

text \<open>
  \<open>Errorf\<close> takes the message \<open>fmt.Sprintf\<close> has formatted. It returns the nil state,
  which is \<open>None\<close>.
\<close>

definition Errorf :: "string \<Rightarrow> 'a Cursor_scheme \<Rightarrow> 's option \<times> 'a Cursor_scheme" where
  "Errorf msg l = (None, enqueue \<lparr>Type = ItemError, Pos = start l, Value = msg\<rparr> l)"

definition Emit :: "ItemType \<Rightarrow> 'a Cursor_scheme \<Rightarrow> panic + 'a Cursor_scheme" where
  "Emit t l =
     (case slice (input l) (start l) (pos l) of
        Inl p \<Rightarrow> Inl p
      | Inr v \<Rightarrow> Inr ((enqueue \<lparr>Type = t, Pos = start l, Value = v\<rparr> l)\<lparr>start := pos l\<rparr>))"

subsection \<open>State functions and the driver\<close>

text \<open>
  A state function is code of the caller. The fields of the lexer are not exported, so it
  acts on the lexer through the exported methods only; a call of a state function is
  the list of method calls it makes, in order, and the state it returns, both as a
  function of the lexer it is handed. The state a state function returns may be the
  function itself, hence a codatatype.
\<close>

datatype call =
    CallAdvance
  | CallBackup
  | CallPeek
  | CallAccept string
  | CallAcceptRun string
  | CallAcceptRange RangeTable
  | CallAcceptRunRange RangeTable
  | CallAcceptString string
  | CallIgnore
  | CallEmit ItemType
  | CallErrorf string

codatatype StateFn = StateFn (invoke: "Cursor \<Rightarrow> call list \<times> StateFn option")

record Lexer = Cursor +
  state :: "StateFn option"

definition New :: "StateFn option \<Rightarrow> string \<Rightarrow> panic + Lexer" where
  "New start_state inp =
     (case start_state of
        None \<Rightarrow> Inl NilStartState
      | Some f \<Rightarrow>
          Inr \<lparr>input = inp, start = 0, pos = 0, width = 0, last_rune = 0, items = [],
               state = Some f\<rparr>)"

text \<open>One method call on the lexer, its result dropped; \<open>None\<close> when it does not return.\<close>

definition returned :: "panic + ('r \<times> 'l) \<Rightarrow> (panic + 'l) option" where
  "returned x = Some (case x of Inl p \<Rightarrow> Inl p | Inr (_, l) \<Rightarrow> Inr l)"

definition returned_run :: "(panic + ('r \<times> 'l)) option \<Rightarrow> (panic + 'l) option" where
  "returned_run x = (case x of None \<Rightarrow> None | Some y \<Rightarrow> returned y)"

fun perform :: "call \<Rightarrow> 'a Cursor_scheme \<Rightarrow> (panic + 'a Cursor_scheme) option" where
  "perform CallAdvance l = returned (Advance l)"
| "perform CallBackup l = Some (Inr (Backup l))"
| "perform CallPeek l = returned (Peek l)"
| "perform (CallAccept valid) l = returned (Accept valid l)"
| "perform (CallAcceptRun valid) l = returned_run (AcceptRun valid l)"
| "perform (CallAcceptRange tab) l = returned (AcceptRange tab l)"
| "perform (CallAcceptRunRange tab) l = returned_run (AcceptRunRange tab l)"
| "perform (CallAcceptString s) l = returned (AcceptString s l)"
| "perform CallIgnore l = Some (Inr (Ignore l))"
| "perform (CallEmit t) l = Some (Emit t l)"
| "perform (CallErrorf msg) l = Some (Inr (snd (Errorf msg l :: unit option \<times> _)))"

fun perform_all :: "call list \<Rightarrow> 'a Cursor_scheme \<Rightarrow> (panic + 'a Cursor_scheme) option" where
  "perform_all [] l = Some (Inr l)"
| "perform_all (c # cs) l =
     (case perform c l of
        None \<Rightarrow> None
      | Some (Inl p) \<Rightarrow> Some (Inl p)
      | Some (Inr l1) \<Rightarrow> perform_all cs l1)"

text \<open>
  \<open>Next\<close>: the loop returns the front of the queue if there is one, the end-of-input
  item if the state is nil, and runs the state function otherwise. \<open>None\<close> is a loop
  that does not end.
\<close>

partial_function (option) Next :: "Lexer \<Rightarrow> (panic + (Item \<times> Lexer)) option" where
  "Next l =
     (case dequeue l of
        (Some head, l1) \<Rightarrow> Some (Inr (head, l1))
      | (None, l1) \<Rightarrow>
          (case state l1 of
             None \<Rightarrow> Some (Inr (\<lparr>Type = ItemEOF, Pos = start l1, Value = []\<rparr>, l1))
           | Some f \<Rightarrow>
               (case invoke f (Cursor.truncate l1) of (cs, next_state) \<Rightarrow>
                  (case perform_all cs l1 of
                     None \<Rightarrow> None
                   | Some (Inl p) \<Rightarrow> Some (Inl p)
                   | Some (Inr l2) \<Rightarrow> Next (l2\<lparr>state := next_state\<rparr>)))))"

section \<open>Runs of calls\<close>

text \<open>
  \<open>repeatedly n f\<close> is \<open>n\<close> consecutive calls of the method \<open>f\<close>, with the list of
  their results; a panic ends it.
\<close>

fun repeatedly :: "nat \<Rightarrow> ('s \<Rightarrow> panic + ('r \<times> 's)) \<Rightarrow> 's \<Rightarrow> panic + ('r list \<times> 's)" where
  "repeatedly 0 f l = Inr ([], l)"
| "repeatedly (Suc n) f l =
     (case f l of
        Inl p \<Rightarrow> Inl p
      | Inr (r, l1) \<Rightarrow>
          (case repeatedly n f l1 of Inl p \<Rightarrow> Inl p | Inr (rs, l2) \<Rightarrow> Inr (r # rs, l2)))"

text \<open>
  Well-formed UTF-8, as the Unicode standard tabulates it (table 3-7, well-formed UTF-8
  byte sequences): \<open>well_formed_rune s\<close> holds if \<open>s\<close> starts with the encoding of one
  code point, of one to four bytes, neither overlong nor of a surrogate nor beyond
  \<open>U+10FFFF\<close>.
\<close>

definition continuation :: "int \<Rightarrow> bool" where
  "continuation b = (0x80 \<le> b \<and> b \<le> 0xBF)"

definition well_formed_rune :: "string \<Rightarrow> bool" where
  "well_formed_rune s =
     (let n = length s; b = (\<lambda>i. byte (s ! i)) in
        (1 \<le> n \<and> b 0 \<le> 0x7F)
      \<or> (2 \<le> n \<and> 0xC2 \<le> b 0 \<and> b 0 \<le> 0xDF \<and> continuation (b 1))
      \<or> (3 \<le> n \<and> b 0 = 0xE0 \<and> 0xA0 \<le> b 1 \<and> b 1 \<le> 0xBF \<and> continuation (b 2))
      \<or> (3 \<le> n \<and> 0xE1 \<le> b 0 \<and> b 0 \<le> 0xEC \<and> continuation (b 1) \<and> continuation (b 2))
      \<or> (3 \<le> n \<and> b 0 = 0xED \<and> 0x80 \<le> b 1 \<and> b 1 \<le> 0x9F \<and> continuation (b 2))
      \<or> (3 \<le> n \<and> 0xEE \<le> b 0 \<and> b 0 \<le> 0xEF \<and> continuation (b 1) \<and> continuation (b 2))
      \<or> (4 \<le> n \<and> b 0 = 0xF0 \<and> 0x90 \<le> b 1 \<and> b 1 \<le> 0xBF
            \<and> continuation (b 2) \<and> continuation (b 3))
      \<or> (4 \<le> n \<and> 0xF1 \<le> b 0 \<and> b 0 \<le> 0xF3 \<and> continuation (b 1)
            \<and> continuation (b 2) \<and> continuation (b 3))
      \<or> (4 \<le> n \<and> b 0 = 0xF4 \<and> 0x80 \<le> b 1 \<and> b 1 \<le> 0x8F
            \<and> continuation (b 2) \<and> continuation (b 3)))"

text \<open>
  The input has a malformed encoding at \<open>pos\<close>: there is a byte at \<open>pos\<close>, and the
  bytes from there on start with no well-formed encoding.
\<close>

definition malformed_at :: "'a Cursor_scheme \<Rightarrow> bool" where
  "malformed_at l =
     (0 \<le> pos l \<and> pos l < int (length (input l)) \<and>
      \<not> well_formed_rune (drop (nat (pos l)) (input l)))"

text \<open>
  A state function in the manner of the example of the package: it reads one rune,
  emits an item of kind 0 for a dot and an error otherwise, and returns the nil state.
\<close>

definition dot_or_error :: StateFn where
  "dot_or_error = StateFn (\<lambda>c.
     case Advance c of
       Inl p \<Rightarrow> ([CallAdvance], None)
     | Inr ((r, n), _) \<Rightarrow>
         if r = EOF \<and> n = 0 then ([CallAdvance, CallErrorf ''unexpected end-of-input''], None)
         else if r = RuneError \<and> n = 1 then ([CallAdvance, CallErrorf ''invalid utf-8 rune''], None)
         else if r = 0x2E then ([CallAdvance, CallEmit 0], None)
         else ([CallAdvance, CallErrorf ''unexpected rune''], None))"







section \<open>Runs of the driver\<close>

text \<open>\<open>Nexts n\<close> is \<open>n\<close> consecutive calls of \<open>Next\<close>, with the items they return.\<close>

fun Nexts :: "nat \<Rightarrow> Lexer \<Rightarrow> (panic + (Item list \<times> Lexer)) option" where
  "Nexts 0 l = Some (Inr ([], l))"
| "Nexts (Suc n) l =
     (case Next l of
        None \<Rightarrow> None
      | Some (Inl p) \<Rightarrow> Some (Inl p)
      | Some (Inr (i, l1)) \<Rightarrow>
          (case Nexts n l1 of
             None \<Rightarrow> None
           | Some (Inl p) \<Rightarrow> Some (Inl p)
           | Some (Inr (is, l2)) \<Rightarrow> Some (Inr (i # is, l2))))"

text \<open>
  What a call hands to \<open>enqueue\<close>, in the words of the specification: \<open>Emit\<close> the item
  of the given kind with the lexeme \<open>input[start:pos]\<close> and the position \<open>start\<close>,
  \<open>Errorf\<close> the error item with the message and the position \<open>start\<close>; no other
  method enqueues. \<open>enqueued cs l\<close> are the items the calls \<open>cs\<close> made from \<open>l\<close> hand
  to \<open>enqueue\<close>, in the order of the calls.
\<close>

fun enqueued_by :: "call \<Rightarrow> 'a Cursor_scheme \<Rightarrow> Item list" where
  "enqueued_by (CallEmit t) l =
     (case slice (input l) (start l) (pos l) of
        Inl p \<Rightarrow> []
      | Inr v \<Rightarrow> [\<lparr>Type = t, Pos = start l, Value = v\<rparr>])"
| "enqueued_by (CallErrorf msg) l = [\<lparr>Type = ItemError, Pos = start l, Value = msg\<rparr>]"
| "enqueued_by c l = []"

fun enqueued :: "call list \<Rightarrow> 'a Cursor_scheme \<Rightarrow> Item list" where
  "enqueued [] l = []"
| "enqueued (c # cs) l =
     (case perform c l of
        Some (Inr l1) \<Rightarrow> enqueued_by c l @ enqueued cs l1
      | _ \<Rightarrow> [])"

text \<open>
  \<open>Next\<close> with a history: the loop of \<open>Next\<close>, which also keeps the items the state
  functions have enqueued, in the order of their calls, and the number of state
  functions invoked, and tells whether the item it returns comes from the queue.
\<close>

partial_function (option) Next_traced ::
  "Item list \<Rightarrow> nat \<Rightarrow> Lexer \<Rightarrow> (panic + (Item list \<times> nat \<times> bool \<times> Item \<times> Lexer)) option" where
  "Next_traced enq k l =
     (case dequeue l of
        (Some head, l1) \<Rightarrow> Some (Inr (enq, k, True, head, l1))
      | (None, l1) \<Rightarrow>
          (case state l1 of
             None \<Rightarrow> Some (Inr (enq, k, False, \<lparr>Type = ItemEOF, Pos = start l1, Value = []\<rparr>, l1))
           | Some f \<Rightarrow>
               (case invoke f (Cursor.truncate l1) of (cs, next_state) \<Rightarrow>
                  (case perform_all cs l1 of
                     None \<Rightarrow> None
                   | Some (Inl p) \<Rightarrow> Some (Inl p)
                   | Some (Inr l2) \<Rightarrow>
                       Next_traced (enq @ enqueued cs l1) (Suc k) (l2\<lparr>state := next_state\<rparr>)))))"

fun Nexts_traced ::
  "nat \<Rightarrow> Lexer \<Rightarrow> (panic + (Item list \<times> nat \<times> (Item \<times> bool) list \<times> Lexer)) option" where
  "Nexts_traced 0 l = Some (Inr ([], 0, [], l))"
| "Nexts_traced (Suc n) l =
     (case Next_traced [] 0 l of
        None \<Rightarrow> None
      | Some (Inl p) \<Rightarrow> Some (Inl p)
      | Some (Inr (enq, k, queued, i, l1)) \<Rightarrow>
          (case Nexts_traced n l1 of
             None \<Rightarrow> None
           | Some (Inl p) \<Rightarrow> Some (Inl p)
           | Some (Inr (enq', k', rets, l2)) \<Rightarrow>
               Some (Inr (enq @ enq', k + k', (i, queued) # rets, l2))))"

text \<open>Dropping the history.\<close>

definition untraced :: "panic + (Item list \<times> nat \<times> bool \<times> Item \<times> Lexer) \<Rightarrow> panic + (Item \<times> Lexer)" where
  "untraced r = (case r of Inl p \<Rightarrow> Inl p | Inr (enq, k, queued, i, l) \<Rightarrow> Inr (i, l))"

definition untraced_run ::
  "panic + (Item list \<times> nat \<times> (Item \<times> bool) list \<times> Lexer) \<Rightarrow> panic + (Item list \<times> Lexer)" where
  "untraced_run r = (case r of Inl p \<Rightarrow> Inl p | Inr (enq, k, rets, l) \<Rightarrow> Inr (map fst rets, l))"

text \<open>
  A state function that enqueues two items in one go, and one that enqueues nothing;
  the first returns the second, which returns \<open>dot_or_error\<close>.
\<close>

definition skip_state :: StateFn where
  "skip_state = StateFn (\<lambda>c. ([CallIgnore], Some dot_or_error))"

definition two_runes :: StateFn where
  "two_runes = StateFn (\<lambda>c. ([CallAdvance, CallEmit 7, CallAdvance, CallEmit 8], Some skip_state))"

section \<open>Properties\<close>

subsection \<open>The decoder\<close>

lemma first_cases:
  "first b = 0xF0 \<or> first b = 0xF1 \<or> first b = 0x02 \<or> first b = 0x13 \<or> first b = 0x23
   \<or> first b = 0x03 \<or> first b = 0x34 \<or> first b = 0x04 \<or> first b = 0x44"
  by (simp add: first_def)

lemma DecodeRuneInString_width:
  assumes "s \<noteq> []" and "DecodeRuneInString s = (r, w)"
  shows "1 \<le> w \<and> w \<le> int (length s)"
proof -
  from assms(1) have n: "1 \<le> int (length s)" by (cases s) simp_all
  show ?thesis
    using first_cases [of "byte (s ! 0)"] assms(2) n
    by (elim disjE) (simp_all add: DecodeRuneInString_def Let_def split: if_splits)
qed

text \<open>
  The decoder reports the invalid marker \<open>(RuneError, 1)\<close> for the strings that start
  with no well-formed encoding, and for no other.
\<close>

lemma byte_range: "0 \<le> byte c \<and> byte c < 256"
proof -
  have "byte c = byte c mod 256" by (simp add: byte_def)
  moreover have "0 \<le> byte c mod 256 \<and> byte c mod 256 < 256" by simp
  ultimately show ?thesis by simp
qed

lemma first_ranges:
  assumes "0 \<le> b" and "b < 256"
  shows "(b < 0x80 \<and> first b = 0xF0) \<or> (0x80 \<le> b \<and> b < 0xC2 \<and> first b = 0xF1)
    \<or> (0xC2 \<le> b \<and> b < 0xE0 \<and> first b = 0x02) \<or> (b = 0xE0 \<and> first b = 0x13)
    \<or> (0xE1 \<le> b \<and> b < 0xED \<and> first b = 0x03) \<or> (b = 0xED \<and> first b = 0x23)
    \<or> (0xEE \<le> b \<and> b < 0xF0 \<and> first b = 0x03) \<or> (b = 0xF0 \<and> first b = 0x34)
    \<or> (0xF1 \<le> b \<and> b < 0xF4 \<and> first b = 0x04) \<or> (b = 0xF4 \<and> first b = 0x44)
    \<or> (0xF5 \<le> b \<and> first b = 0xF1)"
  using assms by (auto simp add: first_def)



lemmas decode_simps =
  DecodeRuneInString_def well_formed_rune_def Let_def acceptRanges_def continuation_def
  RuneError_def

lemma malformed_ascii:
  assumes "1 \<le> length s" "byte (s ! 0) < 0x80" "0 \<le> byte (s ! 0)"
    and "first (byte (s ! 0)) = 0xF0"
  shows "(DecodeRuneInString s = (RuneError, 1)) = (\<not> well_formed_rune s)"
  using assms by (auto simp add: decode_simps)

lemma malformed_stray:
  assumes "1 \<le> length s" "0x80 \<le> byte (s ! 0)" "byte (s ! 0) < 0xC2"
    and "first (byte (s ! 0)) = 0xF1"
  shows "(DecodeRuneInString s = (RuneError, 1)) = (\<not> well_formed_rune s)"
  using assms by (auto simp add: decode_simps)

lemma malformed_two:
  assumes "1 \<le> length s" "0xC2 \<le> byte (s ! 0)" "byte (s ! 0) < 0xE0"
    and "first (byte (s ! 0)) = 0x02"
  shows "(DecodeRuneInString s = (RuneError, 1)) = (\<not> well_formed_rune s)"
  using assms by (auto simp add: decode_simps)

lemma malformed_e0:
  assumes "1 \<le> length s" "byte (s ! 0) = 0xE0"
    and "first (byte (s ! 0)) = 0x13"
  shows "(DecodeRuneInString s = (RuneError, 1)) = (\<not> well_formed_rune s)"
  using assms by (auto simp add: decode_simps)

lemma malformed_e1_ec:
  assumes "1 \<le> length s" "0xE1 \<le> byte (s ! 0)" "byte (s ! 0) < 0xED"
    and "first (byte (s ! 0)) = 0x03"
  shows "(DecodeRuneInString s = (RuneError, 1)) = (\<not> well_formed_rune s)"
  using assms by (auto simp add: decode_simps)

lemma malformed_ed:
  assumes "1 \<le> length s" "byte (s ! 0) = 0xED"
    and "first (byte (s ! 0)) = 0x23"
  shows "(DecodeRuneInString s = (RuneError, 1)) = (\<not> well_formed_rune s)"
  using assms by (auto simp add: decode_simps)

lemma malformed_ee_ef:
  assumes "1 \<le> length s" "0xEE \<le> byte (s ! 0)" "byte (s ! 0) < 0xF0"
    and "first (byte (s ! 0)) = 0x03"
  shows "(DecodeRuneInString s = (RuneError, 1)) = (\<not> well_formed_rune s)"
  using assms by (auto simp add: decode_simps)

lemma malformed_f0:
  assumes "1 \<le> length s" "byte (s ! 0) = 0xF0"
    and "first (byte (s ! 0)) = 0x34"
  shows "(DecodeRuneInString s = (RuneError, 1)) = (\<not> well_formed_rune s)"
  using assms by (auto simp add: decode_simps)

lemma malformed_f1_f3:
  assumes "1 \<le> length s" "0xF1 \<le> byte (s ! 0)" "byte (s ! 0) < 0xF4"
    and "first (byte (s ! 0)) = 0x04"
  shows "(DecodeRuneInString s = (RuneError, 1)) = (\<not> well_formed_rune s)"
  using assms by (auto simp add: decode_simps)

lemma malformed_f4:
  assumes "1 \<le> length s" "byte (s ! 0) = 0xF4"
    and "first (byte (s ! 0)) = 0x44"
  shows "(DecodeRuneInString s = (RuneError, 1)) = (\<not> well_formed_rune s)"
  using assms by (auto simp add: decode_simps)

lemma malformed_high:
  assumes "1 \<le> length s" "0xF5 \<le> byte (s ! 0)"
    and "first (byte (s ! 0)) = 0xF1"
  shows "(DecodeRuneInString s = (RuneError, 1)) = (\<not> well_formed_rune s)"
  using assms by (auto simp add: decode_simps)

lemma DecodeRuneInString_malformed:
  assumes "s \<noteq> []"
  shows "(DecodeRuneInString s = (RuneError, 1)) = (\<not> well_formed_rune s)"
proof -
  from assms have n: "1 \<le> length s" by (cases s) simp_all
  from byte_range [of "s ! 0"] have r: "0 \<le> byte (s ! 0)" "byte (s ! 0) < 256" by simp_all
  from first_ranges [OF r] show ?thesis
  proof (elim disjE conjE)
    assume "byte (s ! 0) < 0x80"
    moreover assume "first (byte (s ! 0)) = 0xF0"
    ultimately show ?thesis using n r by (intro malformed_ascii) simp_all
  next
    assume "0x80 \<le> byte (s ! 0)"
    moreover assume "byte (s ! 0) < 0xC2"
    moreover assume "first (byte (s ! 0)) = 0xF1"
    ultimately show ?thesis using n r by (intro malformed_stray) simp_all
  next
    assume "0xC2 \<le> byte (s ! 0)"
    moreover assume "byte (s ! 0) < 0xE0"
    moreover assume "first (byte (s ! 0)) = 0x02"
    ultimately show ?thesis using n r by (intro malformed_two) simp_all
  next
    assume "byte (s ! 0) = 0xE0"
    moreover assume "first (byte (s ! 0)) = 0x13"
    ultimately show ?thesis using n r by (intro malformed_e0) simp_all
  next
    assume "0xE1 \<le> byte (s ! 0)"
    moreover assume "byte (s ! 0) < 0xED"
    moreover assume "first (byte (s ! 0)) = 0x03"
    ultimately show ?thesis using n r by (intro malformed_e1_ec) simp_all
  next
    assume "byte (s ! 0) = 0xED"
    moreover assume "first (byte (s ! 0)) = 0x23"
    ultimately show ?thesis using n r by (intro malformed_ed) simp_all
  next
    assume "0xEE \<le> byte (s ! 0)"
    moreover assume "byte (s ! 0) < 0xF0"
    moreover assume "first (byte (s ! 0)) = 0x03"
    ultimately show ?thesis using n r by (intro malformed_ee_ef) simp_all
  next
    assume "byte (s ! 0) = 0xF0"
    moreover assume "first (byte (s ! 0)) = 0x34"
    ultimately show ?thesis using n r by (intro malformed_f0) simp_all
  next
    assume "0xF1 \<le> byte (s ! 0)"
    moreover assume "byte (s ! 0) < 0xF4"
    moreover assume "first (byte (s ! 0)) = 0x04"
    ultimately show ?thesis using n r by (intro malformed_f1_f3) simp_all
  next
    assume "byte (s ! 0) = 0xF4"
    moreover assume "first (byte (s ! 0)) = 0x44"
    ultimately show ?thesis using n r by (intro malformed_f4) simp_all
  next
    assume "0xF5 \<le> byte (s ! 0)"
    moreover assume "first (byte (s ! 0)) = 0xF1"
    ultimately show ?thesis using n r by (intro malformed_high) simp_all
  qed
qed

lemmas evals =
  returned_def returned_run_def Advance_def Ignore_def Backup_def Peek_def slice_from_def
  slice_def DecodeRuneInString_def byte_def first_def acceptRanges_def RuneError_def EOF_def
  Accept_def AcceptRange_def AcceptString_def HasPrefix_def IndexRune_def Is_def
  Emit_def Errorf_def enqueue_def dequeue_def AcceptRun_def AcceptRunRange_def

subsection \<open>\<open>Advance\<close> at the end of the input\<close>

text \<open>
  Claim C6. In every lexer state with \<open>pos \<ge> len(input)\<close>, \<open>Advance\<close> returns the rune
  \<open>EOF\<close> with width 0 and leaves \<open>pos\<close> as it is; it records the width 0, so that a
  \<open>Backup\<close> right after it leaves \<open>pos\<close> as it is too.
\<close>

theorem Advance_at_end_of_input:
  assumes "pos l \<ge> int (length (input l))"
  shows "Advance l = Inr ((EOF, 0), l\<lparr>width := 0\<rparr>)
    \<and> pos (l\<lparr>width := 0\<rparr>) = pos l
    \<and> width (l\<lparr>width := 0\<rparr>) = 0
    \<and> pos (Backup (l\<lparr>width := 0\<rparr>)) = pos l"
  using assms by (simp add: Advance_def Backup_def)

theorem Advance_at_end_of_input_witness:
  "Advance \<lparr>input = ''ab'', start = 0, pos = 2, width = 1, last_rune = 0x62, items = []\<rparr>
     = Inr ((EOF, 0), \<lparr>input = ''ab'', start = 0, pos = 2, width = 0, last_rune = 0x62, items = []\<rparr>)
   \<and> pos (Backup \<lparr>input = ''ab'', start = 0, pos = 2, width = 0, last_rune = 0x62, items = []\<rparr>) = 2"
  using Advance_at_end_of_input
    [of "\<lparr>input = ''ab'', start = 0, pos = 2, width = 1, last_rune = 0x62, items = []\<rparr>"]
  by simp

subsection \<open>\<open>Advance\<close> at a malformed encoding\<close>

lemma Advance_malformed:
  assumes "malformed_at l"
  shows "Advance l = Inr ((RuneError, 1), l\<lparr>last_rune := RuneError, width := 1\<rparr>)"
proof -
  from assms have ne: "drop (nat (pos l)) (input l) \<noteq> []"
    by (auto simp add: malformed_at_def)
  from assms DecodeRuneInString_malformed [OF ne]
  have "DecodeRuneInString (drop (nat (pos l)) (input l)) = (RuneError, 1)"
    by (simp add: malformed_at_def)
  with assms show ?thesis
    by (simp add: malformed_at_def Advance_def slice_from_def)
qed

lemma malformed_at_marked:
  "malformed_at l \<Longrightarrow> malformed_at (l\<lparr>last_rune := r, width := w\<rparr>)"
  by (simp add: malformed_at_def)

lemma repeatedly_Advance_malformed:
  assumes "malformed_at l"
  shows "repeatedly (Suc n) Advance l =
    Inr (replicate (Suc n) (RuneError, 1), l\<lparr>last_rune := RuneError, width := 1\<rparr>)"
  using assms
proof (induction n arbitrary: l)
  case 0
  then show ?case by (simp add: Advance_malformed)
next
  case (Suc n)
  let ?l1 = "l\<lparr>last_rune := RuneError, width := 1\<rparr>"
  from Suc.prems have m1: "malformed_at ?l1" by (rule malformed_at_marked)
  have "repeatedly (Suc (Suc n)) Advance l =
      (case repeatedly (Suc n) Advance ?l1 of Inl p \<Rightarrow> Inl p
       | Inr (rs, l2) \<Rightarrow> Inr ((RuneError, 1) # rs, l2))"
    using Suc.prems by (simp add: Advance_malformed)
  also have "\<dots> = Inr (replicate (Suc (Suc n)) (RuneError, 1), ?l1)"
    by (simp only: Suc.IH [OF m1]) simp
  finally show ?case .
qed

text \<open>
  Claim C2. In every lexer state whose input has a malformed encoding at \<open>pos\<close>,
  \<open>Advance\<close> returns the invalid marker \<open>(RuneError, 1)\<close> and leaves \<open>pos\<close> as it is;
  hence any number of consecutive calls of \<open>Advance\<close> return that marker, each of them,
  and \<open>pos\<close> never moves.
\<close>

theorem Advance_malformed_stays:
  assumes "malformed_at l"
  shows "Advance l = Inr ((RuneError, 1), l\<lparr>last_rune := RuneError, width := 1\<rparr>)
    \<and> pos (l\<lparr>last_rune := RuneError, width := 1\<rparr>) = pos l
    \<and> repeatedly (Suc n) Advance l =
        Inr (replicate (Suc n) (RuneError, 1), l\<lparr>last_rune := RuneError, width := 1\<rparr>)"
  using assms by (simp only: Advance_malformed repeatedly_Advance_malformed) simp

theorem Advance_malformed_stays_witness:
  "malformed_at \<lparr>input = [CHR ''a'', CHR 0xFF], start = 0, pos = 1, width = 1, last_rune = 0x61, items = []\<rparr>
   \<and> repeatedly 3 Advance \<lparr>input = [CHR ''a'', CHR 0xFF], start = 0, pos = 1, width = 1, last_rune = 0x61, items = []\<rparr>
     = Inr ([(RuneError, 1), (RuneError, 1), (RuneError, 1)],
         \<lparr>input = [CHR ''a'', CHR 0xFF], start = 0, pos = 1, width = 1, last_rune = RuneError, items = []\<rparr>)"
proof -
  let ?l = "\<lparr>input = [CHR ''a'', CHR 0xFF], start = 0, pos = 1, width = 1, last_rune = 0x61, items = []\<rparr>"
  have m: "malformed_at ?l"
    by (simp add: malformed_at_def well_formed_rune_def continuation_def byte_def)
  have "repeatedly (Suc 2) Advance ?l
     = Inr (replicate (Suc 2) (RuneError, 1), ?l\<lparr>last_rune := RuneError, width := 1\<rparr>)"
    using Advance_malformed_stays [OF m, of 2] by blast
  then show ?thesis using m by (simp add: numeral_3_eq_3 numeral_2_eq_2)
qed

subsection \<open>\<open>Peek\<close>\<close>

text \<open>
  Claim C3 says that consecutive calls of \<open>Peek\<close> leave \<open>pos\<close> as it is and return the
  same rune and width. At a malformed encoding they do not: \<open>Advance\<close> records the
  width 1 there without moving \<open>pos\<close>, and the deferred \<open>Backup\<close> of \<open>Peek\<close> takes that
  width off \<open>pos\<close>. Over the input \<open>a\<close>, \<open>0xFF\<close> at \<open>pos = 1\<close> the first \<open>Peek\<close>
  returns the invalid marker and leaves \<open>pos = 0\<close>, and the second returns the rune
  \<open>a\<close>; over the input \<open>0xFF\<close> at \<open>pos = 0\<close> the first leaves \<open>pos = -1\<close> and the
  second panics in the slice expression.
\<close>

theorem Peek_malformed_rewinds:
  "repeatedly 2 Peek \<lparr>input = [CHR ''a'', CHR 0xFF], start = 0, pos = 1, width = 0, last_rune = 0, items = []\<rparr>
     = Inr ([(RuneError, 1), (0x61, 1)],
         \<lparr>input = [CHR ''a'', CHR 0xFF], start = 0, pos = 0, width = 1, last_rune = 0x61, items = []\<rparr>)
   \<and> Peek \<lparr>input = [CHR 0xFF], start = 0, pos = 0, width = 0, last_rune = 0, items = []\<rparr>
     = Inr ((RuneError, 1),
         \<lparr>input = [CHR 0xFF], start = 0, pos = - 1, width = 1, last_rune = RuneError, items = []\<rparr>)
   \<and> repeatedly 2 Peek \<lparr>input = [CHR 0xFF], start = 0, pos = 0, width = 0, last_rune = 0, items = []\<rparr>
     = Inl SliceBounds"
  by (simp add: numeral_2_eq_2 evals)

text \<open>Away from a malformed encoding \<open>Peek\<close> leaves \<open>pos\<close> as it is.\<close>

lemma Peek_well_formed:
  assumes "\<not> malformed_at l" and "0 \<le> pos l" and "Peek l = Inr (rw, l')"
  shows "pos l' = pos l"
proof (cases "pos l \<ge> int (length (input l))")
  case True
  with assms(3) show ?thesis by (auto simp add: Peek_def Advance_def Backup_def)
next
  case False
  with assms(2) have ne: "drop (nat (pos l)) (input l) \<noteq> []" by auto
  from False assms(1,2) DecodeRuneInString_malformed [OF ne]
  have "DecodeRuneInString (drop (nat (pos l)) (input l)) \<noteq> (RuneError, 1)"
    by (simp add: malformed_at_def)
  with False assms(2,3) show ?thesis
    by (auto simp add: Peek_def Advance_def Backup_def slice_from_def
        split: prod.splits if_splits)
qed

subsection \<open>\<open>AcceptString\<close>\<close>


lemma AcceptString_out_of_range:
  "pos l < 0 \<or> int (length (input l)) < pos l \<Longrightarrow> AcceptString s l = Inl SliceBounds"
  by (auto simp add: AcceptString_def slice_from_def)



text \<open>
  Claim C10. \<open>AcceptString\<close> changes \<open>pos\<close> only, whether it succeeds or not: \<open>start\<close>,
  the recorded width and the recorded rune stay. So a \<open>Backup\<close> right after a
  successful \<open>AcceptString s\<close> takes the width recorded before it off \<open>pos\<close>, not
  \<open>len(s)\<close>.
\<close>

theorem AcceptString_frame:
  assumes "AcceptString s l = Inr (ok, l')"
  shows "l' = l\<lparr>pos := pos l'\<rparr>
    \<and> start l' = start l \<and> width l' = width l \<and> last_rune l' = last_rune l
    \<and> (ok \<longrightarrow> pos l' = pos l + int (length s)
          \<and> pos (Backup l') = pos l + int (length s) - width l)
    \<and> (\<not> ok \<longrightarrow> l' = l)"
  using assms by (auto simp add: AcceptString_def Backup_def split: sum.splits if_splits)

theorem AcceptString_frame_witness:
  "AcceptString ''bc'' \<lparr>input = ''abcd'', start = 0, pos = 1, width = 1, last_rune = 0x61, items = []\<rparr>
     = Inr (True, \<lparr>input = ''abcd'', start = 0, pos = 3, width = 1, last_rune = 0x61, items = []\<rparr>)
   \<and> pos (Backup \<lparr>input = ''abcd'', start = 0, pos = 3, width = 1, last_rune = 0x61, items = []\<rparr>) = 2
   \<and> AcceptString ''func'' \<lparr>input = ''function'', start = 0, pos = 0, width = 0, last_rune = 0, items = []\<rparr>
     = Inr (True, \<lparr>input = ''function'', start = 0, pos = 4, width = 0, last_rune = 0, items = []\<rparr>)
   \<and> pos (Backup \<lparr>input = ''function'', start = 0, pos = 4, width = 0, last_rune = 0, items = []\<rparr>) = 4"
proof -
  let ?l = "\<lparr>input = ''abcd'', start = 0, pos = 1, width = 1, last_rune = 0x61, items = []\<rparr>"
  let ?l' = "\<lparr>input = ''abcd'', start = 0, pos = 3, width = 1, last_rune = 0x61, items = []\<rparr>"
  let ?m = "\<lparr>input = ''function'', start = 0, pos = 0, width = 0, last_rune = 0, items = []\<rparr>"
  let ?m' = "\<lparr>input = ''function'', start = 0, pos = 4, width = 0, last_rune = 0, items = []\<rparr>"
  have a: "AcceptString ''bc'' ?l = Inr (True, ?l')"
    by (simp add: AcceptString_def slice_from_def HasPrefix_def)
  have b: "AcceptString ''func'' ?m = Inr (True, ?m')"
    by (simp add: AcceptString_def slice_from_def HasPrefix_def)
  from AcceptString_frame [OF a] have "pos (Backup ?l') = 2" by simp
  moreover from AcceptString_frame [OF b] have "pos (Backup ?m') = 4" by simp
  ultimately show ?thesis using a b by simp
qed

subsection \<open>\<open>New\<close>\<close>

text \<open>
  Claim C8. \<open>New\<close> panics if and only if the start state is nil; for every other start
  state and every input it returns a lexer with \<open>start = 0\<close>, \<open>pos = 0\<close>, the input,
  the start state as its state, and an empty queue.
\<close>

theorem New_panics_iff_nil:
  "((\<exists>p. New start_state inp = Inl p) \<longleftrightarrow> start_state = None)
   \<and> (start_state = None \<longrightarrow> New start_state inp = Inl NilStartState)
   \<and> (\<forall>f. start_state = Some f \<longrightarrow>
        New start_state inp =
          Inr \<lparr>input = inp, start = 0, pos = 0, width = 0, last_rune = 0, items = [],
               state = Some f\<rparr>)"
  by (simp add: New_def split: option.splits)

theorem New_panics_iff_nil_witness:
  "New None ''abc'' = Inl NilStartState
   \<and> New (Some dot_or_error) ''abc'' =
       Inr \<lparr>input = ''abc'', start = 0, pos = 0, width = 0, last_rune = 0, items = [],
            state = Some dot_or_error\<rparr>"
  using New_panics_iff_nil [of None "''abc''"] New_panics_iff_nil [of "Some dot_or_error" "''abc''"]
  by simp

subsection \<open>The rune \<open>EOF\<close>\<close>

text \<open>
  Claim C9 says that the rune \<open>EOF\<close> is no valid code point and cannot be decoded from
  the input. It is the code point 4, and \<open>Advance\<close> decodes it from the byte 4, with
  width 1.
\<close>

theorem EOF_is_decoded_from_input:
  "ValidRune EOF
   \<and> Advance \<lparr>input = [CHR 0x04], start = 0, pos = 0, width = 0, last_rune = 0, items = []\<rparr>
      = Inr ((EOF, 1), \<lparr>input = [CHR 0x04], start = 0, pos = 1, width = 1, last_rune = EOF, items = []\<rparr>)"
  by (simp add: ValidRune_def surrogateMin_def evals)

text \<open>
  Claim C9, amended. The rune \<open>EOF\<close> is a valid code point; the width tells the end of
  the input from a rune of the input: \<open>Advance\<close> returns the width 0 at the end of the
  input and nowhere else, with the rune \<open>EOF\<close> and \<open>pos\<close> as it was, and a width of 1
  at least for whatever it decodes.
\<close>

theorem EOF_told_by_width:
  assumes "Advance l = Inr ((r, w), l')"
  shows "ValidRune EOF
    \<and> (w = 0 \<longleftrightarrow> pos l \<ge> int (length (input l)))
    \<and> (w = 0 \<longrightarrow> r = EOF \<and> pos l' = pos l)
    \<and> (w \<noteq> 0 \<longrightarrow> 1 \<le> w)"
proof (cases "pos l \<ge> int (length (input l))")
  case True
  with assms show ?thesis by (auto simp add: Advance_def ValidRune_def EOF_def surrogateMin_def)
next
  case False
  with assms have p: "0 \<le> pos l"
    by (simp add: Advance_def slice_from_def split: if_splits)
  from False p have ne: "drop (nat (pos l)) (input l) \<noteq> []" by simp
  obtain c k where d: "DecodeRuneInString (drop (nat (pos l)) (input l)) = (c, k)"
    by (cases "DecodeRuneInString (drop (nat (pos l)) (input l))")
  from DecodeRuneInString_width [OF ne d] have "1 \<le> k" by simp
  with assms False p d show ?thesis
    by (auto simp add: Advance_def slice_from_def ValidRune_def EOF_def surrogateMin_def
        split: if_splits)
qed

theorem EOF_told_by_width_witness:
  "Advance \<lparr>input = [CHR 0x04], start = 0, pos = 1, width = 1, last_rune = 4, items = []\<rparr>
      = Inr ((EOF, 0), \<lparr>input = [CHR 0x04], start = 0, pos = 1, width = 0, last_rune = 4, items = []\<rparr>)
   \<and> Advance \<lparr>input = [CHR 0x04], start = 0, pos = 0, width = 0, last_rune = 0, items = []\<rparr>
      = Inr ((EOF, 1), \<lparr>input = [CHR 0x04], start = 0, pos = 1, width = 1, last_rune = 4, items = []\<rparr>)
   \<and> ValidRune EOF"
proof -
  let ?l = "\<lparr>input = [CHR 0x04], start = 0, pos = 0, width = 0, last_rune = 0, items = []\<rparr>"
  let ?l1 = "\<lparr>input = [CHR 0x04], start = 0, pos = 1, width = 1, last_rune = 4, items = []\<rparr>"
  have a: "Advance ?l = Inr ((EOF, 1), ?l1)" by (simp add: evals)
  have b: "Advance ?l1 = Inr ((EOF, 0), ?l1\<lparr>width := 0\<rparr>)" by (simp add: Advance_def)
  from EOF_told_by_width [OF a] EOF_told_by_width [OF b] a b show ?thesis by simp
qed

subsection \<open>The offsets\<close>
























subsection \<open>The queue\<close>

lemma Advance_items: "Advance l = Inr (rw, l1) \<Longrightarrow> items l1 = items l"
  by (auto simp add: Advance_def split: if_splits sum.splits prod.splits)

lemma Backup_items: "items (Backup l) = items l"
  by (simp add: Backup_def)

lemma Peek_items: "Peek l = Inr (rw, l1) \<Longrightarrow> items l1 = items l"
  by (auto simp add: Peek_def Backup_items split: sum.splits dest: Advance_items)

lemma Accept_items: "Accept valid l = Inr (ok, l1) \<Longrightarrow> items l1 = items l"
  by (auto simp add: Accept_def Let_def Backup_items split: sum.splits if_splits
      dest: Advance_items)

lemma AcceptRange_items: "AcceptRange tab l = Inr (ok, l1) \<Longrightarrow> items l1 = items l"
  by (auto simp add: AcceptRange_def Let_def Backup_items split: sum.splits if_splits
      dest: Advance_items)

lemma AcceptRun_loop_items:
  "AcceptRun_loop valid n l = Some r \<Longrightarrow> r = Inr (k, l') \<Longrightarrow> items l' = items l"
proof (induction valid n l r rule: AcceptRun_loop.raw_induct [rotated 1, consumes 1, case_names step])
  case (step loop valid n l r)
  show ?case
  proof (cases "Accept valid l")
    case (Inl p)
    with step.hyps step.prems show ?thesis by simp
  next
    case (Inr x)
    obtain ok l1 where x: "x = (ok, l1)" by (cases x)
    from Inr x have same: "items l1 = items l" by (simp add: Accept_items)
    show ?thesis
    proof (cases ok)
      case True
      with Inr x step.hyps have "loop valid (n + 1) l1 = Some r" by simp
      from step.IH [OF this step.prems] same show ?thesis by simp
    next
      case False
      with Inr x step.hyps step.prems same show ?thesis by auto
    qed
  qed
qed

lemma AcceptRunRange_loop_items:
  "AcceptRunRange_loop tab n l = Some r \<Longrightarrow> r = Inr (k, l') \<Longrightarrow> items l' = items l"
proof (induction tab n l r rule: AcceptRunRange_loop.raw_induct [rotated 1, consumes 1, case_names step])
  case (step loop tab n l r)
  show ?case
  proof (cases "AcceptRange tab l")
    case (Inl p)
    with step.hyps step.prems show ?thesis by simp
  next
    case (Inr x)
    obtain ok l1 where x: "x = (ok, l1)" by (cases x)
    from Inr x have same: "items l1 = items l" by (simp add: AcceptRange_items)
    show ?thesis
    proof (cases ok)
      case True
      with Inr x step.hyps have "loop tab (n + 1) l1 = Some r" by simp
      from step.IH [OF this step.prems] same show ?thesis by simp
    next
      case False
      with Inr x step.hyps step.prems same show ?thesis by auto
    qed
  qed
qed

lemma AcceptString_items: "AcceptString s l = Inr (ok, l1) \<Longrightarrow> items l1 = items l"
  by (auto simp add: AcceptString_def split: sum.splits if_splits)

text \<open>A call appends what it enqueues to the queue and leaves the rest of it alone.\<close>

lemma perform_items:
  assumes "perform c l = Some (Inr l1)"
  shows "items l1 = items l @ enqueued_by c l"
proof (cases c)
  case CallAdvance
  with assms show ?thesis
    by (auto simp add: returned_def split: sum.splits dest: Advance_items)
next
  case CallBackup
  with assms show ?thesis by (auto simp add: Backup_items)
next
  case CallPeek
  with assms show ?thesis
    by (auto simp add: returned_def split: sum.splits dest: Peek_items)
next
  case (CallAccept valid)
  with assms show ?thesis
    by (auto simp add: returned_def split: sum.splits dest: Accept_items)
next
  case (CallAcceptRun valid)
  with assms show ?thesis
    by (auto simp add: returned_run_def returned_def AcceptRun_def
        split: option.splits sum.splits dest: AcceptRun_loop_items [OF _ refl])
next
  case (CallAcceptRange tab)
  with assms show ?thesis
    by (auto simp add: returned_def split: sum.splits dest: AcceptRange_items)
next
  case (CallAcceptRunRange tab)
  with assms show ?thesis
    by (auto simp add: returned_run_def returned_def AcceptRunRange_def
        split: option.splits sum.splits dest: AcceptRunRange_loop_items [OF _ refl])
next
  case (CallAcceptString s)
  with assms show ?thesis
    by (auto simp add: returned_def split: sum.splits dest: AcceptString_items)
next
  case CallIgnore
  with assms show ?thesis by (auto simp add: Ignore_def)
next
  case (CallEmit t)
  with assms show ?thesis
    by (auto simp add: Emit_def enqueue_def split: sum.splits)
next
  case (CallErrorf msg)
  with assms show ?thesis by (auto simp add: Errorf_def enqueue_def)
qed

lemma perform_all_items:
  "perform_all cs l = Some (Inr l') \<Longrightarrow> items l' = items l @ enqueued cs l"
proof (induction cs arbitrary: l)
  case Nil
  then show ?case by simp
next
  case (Cons c cs)
  from Cons.prems obtain l1 where p: "perform c l = Some (Inr l1)"
    and run: "perform_all cs l1 = Some (Inr l')"
    by (auto split: option.splits sum.splits)
  from perform_items [OF p] Cons.IH [OF run] p show ?case by simp
qed

text \<open>
  One call of \<open>Next\<close>: what it delivers from the queue and what it leaves there is what
  was there before and what the state functions enqueued, in that order.
\<close>

lemma Next_traced_queue:
  assumes "Next_traced enq k l = Some r"
  shows "\<forall>enq' k' queued i l'. r = Inr (enq', k', queued, i, l') \<longrightarrow>
    (\<exists>e. enq' = enq @ e \<and> (if queued then [i] else []) @ items l' = items l @ e)"
proof (rule Next_traced.raw_induct
    [where P = "\<lambda>enq k l r. \<forall>enq' k' queued i l'. r = Inr (enq', k', queued, i, l') \<longrightarrow>
      (\<exists>e. enq' = enq @ e \<and> (if queued then [i] else []) @ items l' = items l @ e)", OF _ assms])
  fix traced :: "Item list \<Rightarrow> nat \<Rightarrow> Lexer \<Rightarrow> (panic + (Item list \<times> nat \<times> bool \<times> Item \<times> Lexer)) option"
    and enq k l r
  assume IH: "\<And>enq k l r. traced enq k l = Some r \<Longrightarrow>
    \<forall>enq' k' queued i l'. r = Inr (enq', k', queued, i, l') \<longrightarrow>
      (\<exists>e. enq' = enq @ e \<and> (if queued then [i] else []) @ items l' = items l @ e)"
  assume step: "(case dequeue l of
        (Some head, l1) \<Rightarrow> Some (Inr (enq, k, True, head, l1))
      | (None, l1) \<Rightarrow>
          (case state l1 of
             None \<Rightarrow> Some (Inr (enq, k, False, \<lparr>Type = ItemEOF, Pos = start l1, Value = []\<rparr>, l1))
           | Some f \<Rightarrow>
               (case invoke f (Cursor.truncate l1) of (cs, next_state) \<Rightarrow>
                  (case perform_all cs l1 of
                     None \<Rightarrow> None
                   | Some (Inl p) \<Rightarrow> Some (Inl p)
                   | Some (Inr l2) \<Rightarrow>
                       traced (enq @ enqueued cs l1) (Suc k) (l2\<lparr>state := next_state\<rparr>))))) = Some r"
  show "\<forall>enq' k' queued i l'. r = Inr (enq', k', queued, i, l') \<longrightarrow>
      (\<exists>e. enq' = enq @ e \<and> (if queued then [i] else []) @ items l' = items l @ e)"
  proof (cases "items l")
    case (Cons x xs)
    with step show ?thesis by (auto simp add: dequeue_def)
  next
    case Nil
    show ?thesis
    proof (cases "state l")
      case None
      with Nil step show ?thesis by (auto simp add: dequeue_def)
    next
      case (Some f)
      obtain cs next_state where inv: "invoke f (Cursor.truncate l) = (cs, next_state)"
        by (cases "invoke f (Cursor.truncate l)")
      show ?thesis
      proof (intro allI impI)
        fix enq' k' queued i l'
        assume r: "r = Inr (enq', k', queued, i, l')"
        from Nil Some inv step r obtain l2 where run: "perform_all cs l = Some (Inr l2)"
          and again: "traced (enq @ enqueued cs l) (Suc k) (l2\<lparr>state := next_state\<rparr>) = Some r"
          by (auto simp add: dequeue_def split: option.splits sum.splits)
        from IH [OF again] r obtain e where
          e: "enq' = (enq @ enqueued cs l) @ e"
            "(if queued then [i] else []) @ items l' = items (l2\<lparr>state := next_state\<rparr>) @ e"
          by blast
        from perform_all_items [OF run] Nil have "items l2 = enqueued cs l" by simp
        with e Nil show "\<exists>e. enq' = enq @ e \<and> (if queued then [i] else []) @ items l' = items l @ e"
          by simp
      qed
    qed
  qed
qed

subsection \<open>\<open>Next\<close> and its history\<close>

lemma Next_traced_untraced:
  assumes "Next_traced enq k l = Some r"
  shows "Next l = Some (untraced r)"
proof (rule Next_traced.raw_induct [where P = "\<lambda>enq k l r. Next l = Some (untraced r)", OF _ assms])
  fix traced :: "Item list \<Rightarrow> nat \<Rightarrow> Lexer \<Rightarrow> (panic + (Item list \<times> nat \<times> bool \<times> Item \<times> Lexer)) option"
    and enq k l r
  assume IH: "\<And>enq k l r. traced enq k l = Some r \<Longrightarrow> Next l = Some (untraced r)"
  assume step: "(case dequeue l of
        (Some head, l1) \<Rightarrow> Some (Inr (enq, k, True, head, l1))
      | (None, l1) \<Rightarrow>
          (case state l1 of
             None \<Rightarrow> Some (Inr (enq, k, False, \<lparr>Type = ItemEOF, Pos = start l1, Value = []\<rparr>, l1))
           | Some f \<Rightarrow>
               (case invoke f (Cursor.truncate l1) of (cs, next_state) \<Rightarrow>
                  (case perform_all cs l1 of
                     None \<Rightarrow> None
                   | Some (Inl p) \<Rightarrow> Some (Inl p)
                   | Some (Inr l2) \<Rightarrow>
                       traced (enq @ enqueued cs l1) (Suc k) (l2\<lparr>state := next_state\<rparr>))))) = Some r"
  show "Next l = Some (untraced r)"
    using step
    by (subst Next.simps)
      (auto simp add: untraced_def dest: IH split: prod.splits option.splits sum.splits)
qed

lemma Next_traced_exists:
  "Next l = Some r \<Longrightarrow> \<exists>r'. Next_traced enq k l = Some r' \<and> untraced r' = r"
proof (induction l r arbitrary: enq k rule: Next.raw_induct [rotated 1, consumes 1, case_names step])
  case (step loop l r)
  show ?case
  proof (cases "items l")
    case (Cons x xs)
    with step.hyps show ?thesis
      by (subst Next_traced.simps) (auto simp add: dequeue_def untraced_def)
  next
    case Nil
    show ?thesis
    proof (cases "state l")
      case None
      with Nil step.hyps show ?thesis
        by (subst Next_traced.simps) (auto simp add: dequeue_def untraced_def)
    next
      case (Some f)
      obtain cs next_state where inv: "invoke f (Cursor.truncate l) = (cs, next_state)"
        by (cases "invoke f (Cursor.truncate l)")
      show ?thesis
      proof (cases "perform_all cs l")
        case None
        with Nil Some inv step.hyps show ?thesis by (simp add: dequeue_def)
      next
        case run: (Some y)
        show ?thesis
        proof (cases y)
          case (Inl p)
          with Nil Some inv run step.hyps show ?thesis
            by (subst Next_traced.simps) (auto simp add: dequeue_def untraced_def)
        next
          case (Inr l2)
          with Nil Some inv run step.hyps
          have "loop (l2\<lparr>state := next_state\<rparr>) = Some r" by (simp add: dequeue_def)
          from step.IH [OF this, of "enq @ enqueued cs l" "Suc k"]
          show ?thesis using Nil Some inv run Inr
            by (subst Next_traced.simps) (simp add: dequeue_def)
        qed
      qed
    qed
  qed
qed

text \<open>The traced loop returns what \<open>Next\<close> returns, and returns when \<open>Next\<close> does.\<close>

lemma Next_untraced: "Next l = map_option untraced (Next_traced enq k l)"
proof (cases "Next_traced enq k l")
  case None
  show ?thesis
  proof (cases "Next l")
    case (Some r)
    from Next_traced_exists [OF this, of enq k] None show ?thesis by simp
  qed (simp add: None)
next
  case (Some r)
  from Next_traced_untraced [OF this] Some show ?thesis by simp
qed

lemma Nexts_untraced: "Nexts n l = map_option untraced_run (Nexts_traced n l)"
proof (induction n arbitrary: l)
  case 0
  show ?case by (simp add: untraced_run_def)
next
  case (Suc n)
  show ?case
    by (simp add: Next_untraced [of l "[]" 0] Suc.IH untraced_def untraced_run_def
        split: option.splits sum.splits prod.splits)
qed

lemma Nexts_traced_queue:
  "Nexts_traced n l = Some (Inr (enq, k, rets, l')) \<Longrightarrow>
     map fst (filter snd rets) @ items l' = items l @ enq"
proof (induction n arbitrary: l enq k rets)
  case 0
  then show ?case by simp
next
  case (Suc n)
  from Suc.prems obtain e1 k1 queued i l1 e2 k2 rets2
    where one: "Next_traced [] 0 l = Some (Inr (e1, k1, queued, i, l1))"
      and rest: "Nexts_traced n l1 = Some (Inr (e2, k2, rets2, l'))"
      and enq: "enq = e1 @ e2" and rets: "rets = (i, queued) # rets2"
    by (auto split: option.splits sum.splits)
  from Next_traced_queue [OF one]
  have q1: "(if queued then [i] else []) @ items l1 = items l @ e1" by auto
  from Suc.IH [OF rest] have q2: "map fst (filter snd rets2) @ items l' = items l1 @ e2" .
  have "map fst (filter snd rets) @ items l'
      = (if queued then [i] else []) @ map fst (filter snd rets2) @ items l'"
    by (simp add: rets)
  also have "\<dots> = ((if queued then [i] else []) @ items l1) @ e2"
    by (simp only: q2 append_assoc)
  also have "\<dots> = items l @ enq"
    by (simp only: q1 enq append_assoc)
  finally show ?case .
qed

lemmas drive =
  Next_traced.simps Cursor.truncate_def two_runes_def skip_state_def dot_or_error_def

subsection \<open>The order of delivery\<close>

text \<open>
  Claim C4. \<open>Next\<close> delivers the items in the order in which \<open>Emit\<close> and \<open>Errorf\<close>
  enqueued them: in every run of consecutive calls of \<open>Next\<close>, the items returned from
  the queue, followed by the items left in the queue, are the items that were in the
  queue before, followed by the items the calls of \<open>Emit\<close> and \<open>Errorf\<close> enqueued, in
  the order of those calls, however many state functions ran between two deliveries.
  From an empty queue to an empty queue the items delivered are the items enqueued.
\<close>

theorem Next_fifo:
  assumes "Nexts_traced n l = Some (Inr (enq, k, rets, l'))"
  shows "Nexts n l = Some (Inr (map fst rets, l'))
    \<and> map fst (filter snd rets) @ items l' = items l @ enq
    \<and> (items l = [] \<and> items l' = [] \<longrightarrow> map fst (filter snd rets) = enq)"
  using Nexts_traced_queue [OF assms] assms
  by (auto simp add: Nexts_untraced untraced_run_def)

theorem Next_fifo_witness:
  "Nexts_traced 5
     \<lparr>input = ''ab.'', start = 0, pos = 0, width = 0, last_rune = 0, items = [], state = Some two_runes\<rparr>
   = Some (Inr
      ([\<lparr>Type = 7, Pos = 0, Value = ''a''\<rparr>, \<lparr>Type = 8, Pos = 1, Value = ''b''\<rparr>,
        \<lparr>Type = 0, Pos = 2, Value = ''.''\<rparr>],
       3,
       [(\<lparr>Type = 7, Pos = 0, Value = ''a''\<rparr>, True), (\<lparr>Type = 8, Pos = 1, Value = ''b''\<rparr>, True),
        (\<lparr>Type = 0, Pos = 2, Value = ''.''\<rparr>, True),
        (\<lparr>Type = ItemEOF, Pos = 3, Value = []\<rparr>, False), (\<lparr>Type = ItemEOF, Pos = 3, Value = []\<rparr>, False)],
       \<lparr>input = ''ab.'', start = 3, pos = 3, width = 1, last_rune = 0x2E, items = [], state = None\<rparr>))
   \<and> Nexts 5
     \<lparr>input = ''ab.'', start = 0, pos = 0, width = 0, last_rune = 0, items = [], state = Some two_runes\<rparr>
   = Some (Inr
      ([\<lparr>Type = 7, Pos = 0, Value = ''a''\<rparr>, \<lparr>Type = 8, Pos = 1, Value = ''b''\<rparr>,
        \<lparr>Type = 0, Pos = 2, Value = ''.''\<rparr>,
        \<lparr>Type = ItemEOF, Pos = 3, Value = []\<rparr>, \<lparr>Type = ItemEOF, Pos = 3, Value = []\<rparr>],
       \<lparr>input = ''ab.'', start = 3, pos = 3, width = 1, last_rune = 0x2E, items = [], state = None\<rparr>))"
proof -
  let ?init = "\<lparr>input = ''ab.'', start = 0, pos = 0, width = 0, last_rune = 0, items = [], state = Some two_runes\<rparr>"
  let ?final = "\<lparr>input = ''ab.'', start = 3, pos = 3, width = 1, last_rune = 0x2E, items = [], state = None\<rparr>"
  let ?a = "\<lparr>Type = 7, Pos = 0, Value = ''a''\<rparr>"
  let ?b = "\<lparr>Type = 8, Pos = 1, Value = ''b''\<rparr>"
  let ?d = "\<lparr>Type = 0, Pos = 2, Value = ''.''\<rparr>"
  let ?e = "\<lparr>Type = ItemEOF, Pos = 3, Value = []\<rparr>"
  have run: "Nexts_traced 5 ?init
      = Some (Inr ([?a, ?b, ?d], 3, [(?a, True), (?b, True), (?d, True), (?e, False), (?e, False)], ?final))"
    by (simp add: eval_nat_numeral drive evals)
  from Next_fifo [OF run] run show ?thesis by simp
qed

subsection \<open>After the end of the input\<close>

lemma Next_traced_end:
  assumes "items l = []" and "state l = None"
  shows "Next_traced enq k l =
    Some (Inr (enq, k, False, \<lparr>Type = ItemEOF, Pos = start l, Value = []\<rparr>, l))"
  using assms by (subst Next_traced.simps) (simp add: dequeue_def)

lemma Nexts_traced_end:
  assumes "items l = []" and "state l = None"
  shows "Nexts_traced n l =
    Some (Inr ([], 0, replicate n (\<lparr>Type = ItemEOF, Pos = start l, Value = []\<rparr>, False), l))"
  by (induction n) (simp_all add: Next_traced_end [OF assms])

text \<open>When \<open>Next\<close> has made the end-of-input item itself, the queue is empty and the state nil.\<close>

lemma Next_traced_made_end:
  "Next_traced enq k l = Some r \<Longrightarrow> r = Inr (enq', k', False, i, l') \<Longrightarrow>
     items l' = [] \<and> state l' = None \<and> i = \<lparr>Type = ItemEOF, Pos = start l', Value = []\<rparr>"
proof (induction enq k l r
    rule: Next_traced.raw_induct [rotated 1, consumes 1, case_names step])
  case (step traced enq k l r)
  from step.hyps step.prems show ?case
    by (auto simp add: dequeue_def split: list.splits option.splits sum.splits prod.splits
        dest: step.IH)
qed

text \<open>
  Claim C5. Once the queue is empty and the state is nil, as they are when \<open>Next\<close> has
  returned the end-of-input item it makes, every call of \<open>Next\<close> returns that item,
  of kind \<open>ItemEOF\<close> at the position \<open>start\<close>, invokes no state function and leaves
  the lexer as it is.
\<close>

theorem Next_after_end:
  assumes "items l = []" and "state l = None"
  shows "Next l = Some (Inr (\<lparr>Type = ItemEOF, Pos = start l, Value = []\<rparr>, l))
    \<and> Nexts n l = Some (Inr (replicate n \<lparr>Type = ItemEOF, Pos = start l, Value = []\<rparr>, l))
    \<and> Nexts_traced n l =
        Some (Inr ([], 0, replicate n (\<lparr>Type = ItemEOF, Pos = start l, Value = []\<rparr>, False), l))"
  by (simp add: Nexts_untraced Next_untraced [of l "[]" 0] Next_traced_end [OF assms]
      Nexts_traced_end [OF assms] untraced_def untraced_run_def)

theorem Next_after_end_witness:
  "Nexts 3 \<lparr>input = ''ab.'', start = 3, pos = 3, width = 1, last_rune = 0x2E, items = [], state = None\<rparr>
   = Some (Inr
      ([\<lparr>Type = ItemEOF, Pos = 3, Value = []\<rparr>, \<lparr>Type = ItemEOF, Pos = 3, Value = []\<rparr>,
        \<lparr>Type = ItemEOF, Pos = 3, Value = []\<rparr>],
       \<lparr>input = ''ab.'', start = 3, pos = 3, width = 1, last_rune = 0x2E, items = [], state = None\<rparr>))
   \<and> Next \<lparr>input = ''ab.'', start = 3, pos = 3, width = 1, last_rune = 0x2E, items = [], state = None\<rparr>
   = Some (Inr (\<lparr>Type = ItemEOF, Pos = 3, Value = []\<rparr>,
       \<lparr>input = ''ab.'', start = 3, pos = 3, width = 1, last_rune = 0x2E, items = [], state = None\<rparr>))"
  using Next_after_end
    [of "\<lparr>input = ''ab.'', start = 3, pos = 3, width = 1, last_rune = 0x2E, items = [], state = None\<rparr>" 3]
  by (simp add: eval_nat_numeral)

end
